theory Spec2Isabelle
  imports Main "HOL-Library.Sublist" "HOL-Library.Option_ord" "HOL-Library.List_Lexorder"
begin

section \<open>Version tuples and the two classification dictionaries\<close>

text \<open>
  A version is the Python 4-tuple \<^verbatim>\<open>(major, minor, patch, build)\<close> whose slots hold an
  integer or \<^verbatim>\<open>None\<close>. It is a list of optional integers here, indexed as the source
  indexes it; every tuple the program builds has four slots (\<^verbatim>\<open>process\<close> appends four
  times, \<^verbatim>\<open>DEFAULT_MASTER_VERSION\<close> is written with four).

  Python 2 orders \<^verbatim>\<open>None\<close> below every integer and tuples lexicographically; that is the
  order of \<^typ>\<open>int option list\<close> given by the option and list orders of the library.
\<close>

type_synonym version = "int option list"

text \<open>
  The module-level dictionaries \<^verbatim>\<open>is_dev_branch\<close> and \<^verbatim>\<open>is_ga_tag\<close> only ever store
  \<^verbatim>\<open>True\<close> and are only queried with \<^verbatim>\<open>in\<close>, so each is the set of its keys.
\<close>

record registry =
  is_dev_branch :: "version set"
  is_ga_tag :: "version set"

definition empty_registry :: registry where
  "empty_registry = \<lparr>is_dev_branch = {}, is_ga_tag = {}\<rparr>"

definition DEFAULT_MASTER_VERSION :: version where
  "DEFAULT_MASTER_VERSION = [Some 3, None, None, None]"

section \<open>Strings: whitespace, digits, decimal numerals\<close>

definition newline :: char where
  "newline = CHR 0x0A"

text \<open>The characters removed by \<^verbatim>\<open>str.strip()\<close>: space, tab, LF, VT, FF, CR.\<close>

definition is_space :: "char \<Rightarrow> bool" where
  "is_space c = (c \<in> set [CHR '' '', CHR 0x09, CHR 0x0A, CHR 0x0B, CHR 0x0C, CHR 0x0D])"

definition strip :: "string \<Rightarrow> string" where
  "strip s = rev (dropWhile is_space (rev (dropWhile is_space s)))"

text \<open>The class \<^verbatim>\<open>\d\<close> on a byte string without flags.\<close>

definition is_digit :: "char \<Rightarrow> bool" where
  "is_digit c = (c \<in> set ''0123456789'')"

text \<open>The value of a decimal digit: its position in the string of the ten digits.\<close>

definition digit_val :: "char \<Rightarrow> int" where
  "digit_val c = int (length (takeWhile (\<lambda>d. d \<noteq> c) ''0123456789''))"

text \<open>\<^verbatim>\<open>int(x)\<close> on a string of decimal digits.\<close>

definition py_int :: "string \<Rightarrow> int" where
  "py_int x = foldl (\<lambda>a c. 10 * a + digit_val c) 0 x"

definition digit_char :: "nat \<Rightarrow> char" where
  "digit_char n = ''0123456789'' ! n"

function str_nat :: "nat \<Rightarrow> string" where
  "str_nat n = (if n < 10 then [digit_char n] else str_nat (n div 10) @ [digit_char (n mod 10)])"
  by pat_completeness auto
termination
  by (relation "measure (\<lambda>n. n)") auto

declare str_nat.simps [simp del]

text \<open>\<^verbatim>\<open>str(n)\<close> on an integer.\<close>

definition str :: "int \<Rightarrow> string" where
  "str n = (if n < 0 then CHR ''-'' # str_nat (nat (- n)) else str_nat (nat n))"

section \<open>The two regular expressions\<close>

text \<open>
  Both patterns are matched by backtracking. Each piece of a pattern is modelled by the list
  of ways it can match a prefix of the remaining input, in the order the matcher tries them
  (a greedy repetition tries the longest first, an alternation its branches left to right);
  the match object returned by \<^verbatim>\<open>match\<close> is the first complete success.
\<close>

text \<open>A match object is the list of its groups 0 to 8; an unmatched group is \<^verbatim>\<open>None\<close>.\<close>

type_synonym match_obj = "string option list"

definition group :: "match_obj \<Rightarrow> nat \<Rightarrow> string option" where
  "group m i = m ! i"

text \<open>\<^verbatim>\<open>(\d+)\<close>: every split into a non-empty run of digits and the rest, longest run first.\<close>

fun digits_plus :: "string \<Rightarrow> (string \<times> string) list" where
  "digits_plus [] = []"
| "digits_plus (c # s) =
     (if is_digit c then map (\<lambda>(d, r). (c # d, r)) (digits_plus s) @ [([c], s)] else [])"

text \<open>
  \<^verbatim>\<open>\.(\d+)\<close>: a dot and digits. Each way gives the matched text, the inner group and the
  rest of the input.
\<close>

definition dot_digits :: "string \<Rightarrow> (string \<times> string option \<times> string) list" where
  "dot_digits s =
     (case s of
        [] \<Rightarrow> []
      | c # s' \<Rightarrow>
          if c = CHR ''.'' then map (\<lambda>(d, r). (c # d, Some d, r)) (digits_plus s') else [])"

text \<open>
  \<^verbatim>\<open>(\.(\d+)|)\<close>: first the branch with a dot and digits, then the empty branch, which
  leaves the inner group unset.
\<close>

definition opt_component :: "string \<Rightarrow> (string \<times> string option \<times> string) list" where
  "opt_component s = dot_digits s @ [('''', None, s)]"

text \<open>An alternation of literals, tried left to right.\<close>

definition literal_alts :: "string list \<Rightarrow> string \<Rightarrow> (string \<times> string) list" where
  "literal_alts alts s =
     concat (map (\<lambda>a. if prefix a s then [(a, drop (length a) s)] else []) alts)"

text \<open>\<^verbatim>\<open>$\<close> without MULTILINE: the end of the string, or just before a final newline.\<close>

definition at_dollar :: "string \<Rightarrow> bool" where
  "at_dollar s = (s = [] \<or> s = [newline])"

text \<open>
  \<^verbatim>\<open>(\d+)(\.(\d+)|)(\.(\d+)|)(\.(\d+)|)(ALTS)$\<close>, the part the two patterns share: the
  groups 1 to 8 of every complete match, in the matcher's order.
\<close>

definition version_core :: "string list \<Rightarrow> string \<Rightarrow> match_obj list" where
  "version_core alts s =
     List.bind (digits_plus s) (\<lambda>(g1, r1).
     List.bind (opt_component r1) (\<lambda>(g2, g3, r2).
     List.bind (opt_component r2) (\<lambda>(g4, g5, r3).
     List.bind (opt_component r3) (\<lambda>(g6, g7, r4).
     List.bind (literal_alts alts r4) (\<lambda>(g8, r5).
       if at_dollar r5
       then [[Some g1, Some g2, g3, Some g4, g5, Some g6, g7, Some g8]]
       else [])))))"

text \<open>Group 0 of an anchored match: the input without the final newline \<^verbatim>\<open>$\<close> leaves.\<close>

definition matched_text :: "string \<Rightarrow> string" where
  "matched_text s = (if s \<noteq> [] \<and> last s = newline then butlast s else s)"

definition first_match :: "string \<Rightarrow> match_obj list \<Rightarrow> match_obj option" where
  "first_match s ms = (case ms of [] \<Rightarrow> None | gs # _ \<Rightarrow> Some (Some (matched_text s) # gs))"

text \<open>\<^verbatim>\<open>tag_regexp = ^v(\d+)(\.(\d+)|)(\.(\d+)|)(\.(\d+)|)(GA)$\<close>\<close>

definition tag_alts :: "string list" where
  "tag_alts = [''GA'']"

definition tag_regexp_match :: "string \<Rightarrow> match_obj option" where
  "tag_regexp_match s =
     first_match s
       (case s of
          [] \<Rightarrow> []
        | c # r \<Rightarrow> if c = CHR ''v'' then version_core tag_alts r else [])"

text \<open>\<^verbatim>\<open>.*\<close>: the inputs left after any run of non-newline characters, longest run first.\<close>

fun dot_star :: "string \<Rightarrow> string list" where
  "dot_star [] = [[]]"
| "dot_star (c # s) = (if c = newline then [] else dot_star s) @ [c # s]"

text \<open>\<^verbatim>\<open>branch_regexp = ^.*/(\d+)(\.(\d+)|)(\.(\d+)|)(\.(\d+)|)(\.x|\.next|-patch|)$\<close>\<close>

definition branch_alts :: "string list" where
  "branch_alts = [''.x'', ''.next'', ''-patch'', '''']"

definition branch_regexp_match :: "string \<Rightarrow> match_obj option" where
  "branch_regexp_match s =
     first_match s
       (List.bind (dot_star s) (\<lambda>r.
          case r of
            [] \<Rightarrow> []
          | c # r' \<Rightarrow> if c = CHR ''/'' then version_core branch_alts r' else []))"

section \<open>The functions of the module\<close>

text \<open>The loop of \<^verbatim>\<open>process\<close> over the odd groups 1, 3, 5, 7.\<close>

function process_loop :: "match_obj \<Rightarrow> nat \<Rightarrow> version \<Rightarrow> version" where
  "process_loop m i result =
     (if i < 8
      then process_loop m (i + 2)
             (result @ [case group m i of None \<Rightarrow> None | Some x \<Rightarrow> Some (py_int x)])
      else result)"
  by pat_completeness auto
termination
  by (relation "measure (\<lambda>(m, i, result). 8 - i)") auto

text \<open>
  \<^verbatim>\<open>process(m)\<close>: the registry is threaded through, since a match registers its tuple
  according to group 8.
\<close>

definition process :: "registry \<Rightarrow> match_obj option \<Rightarrow> registry \<times> version option" where
  "process reg mo =
     (case mo of
        None \<Rightarrow> (reg, None)
      | Some m \<Rightarrow>
          let result = process_loop m 1 [];
              reg1 = (if group m 8 \<in> {Some ''-patch'', Some ''.next'', Some ''.x''}
                      then reg\<lparr>is_dev_branch := insert result (is_dev_branch reg)\<rparr>
                      else reg);
              reg2 = (if group m 8 = Some ''GA''
                      then reg1\<lparr>is_ga_tag := insert result (is_ga_tag reg1)\<rparr>
                      else reg1)
          in (reg2, Some result))"

text \<open>\<^verbatim>\<open>version[i] is not None and version[i] > 0\<close>\<close>

definition positive :: "int option \<Rightarrow> bool" where
  "positive x = (case x of None \<Rightarrow> False | Some n \<Rightarrow> n > 0)"

fun is_ga_loop :: "version set \<Rightarrow> version \<Rightarrow> nat \<Rightarrow> bool" where
  "is_ga_loop ga version i =
     (if i > 0
      then (if version \<in> ga then True
            else if positive (version ! i) then False
            else is_ga_loop ga (version[i := None]) (i - 1))
      else version \<in> ga)"

definition is_ga :: "version set \<Rightarrow> version \<Rightarrow> bool" where
  "is_ga ga version = is_ga_loop ga version 3"

text \<open>
  \<^verbatim>\<open>is_same_base_version(ref, other)\<close>; falling out of the loop returns \<^verbatim>\<open>None\<close>, as a
  Python function without a return statement does.
\<close>

function isbv_loop :: "version set \<Rightarrow> version \<Rightarrow> version \<Rightarrow> nat \<Rightarrow> version option" where
  "isbv_loop ga ref other i =
     (if i < 4
      then (if ref ! i = None
            then Some (case other ! i of
                         Some n \<Rightarrow> ref[i := Some (n + 1)]
                       | None \<Rightarrow> if is_ga ga other then ref[i := Some 1] else ref)
            else if ref ! i \<noteq> other ! i then None
            else isbv_loop ga ref other (i + 1))
      else None)"
  by pat_completeness auto
termination
  by (relation "measure (\<lambda>(ga, ref, other, i). 4 - i)") auto

definition is_same_base_version :: "version set \<Rightarrow> version \<Rightarrow> version \<Rightarrow> version option" where
  "is_same_base_version ga ref other = isbv_loop ga ref other 0"

text \<open>\<^verbatim>\<open>display(version)\<close>: the loop carries \<^verbatim>\<open>sep\<close> and \<^verbatim>\<open>v\<close>.\<close>

fun display_loop :: "string \<Rightarrow> string \<Rightarrow> version \<Rightarrow> string" where
  "display_loop sep v [] = v"
| "display_loop sep v (None # ns) = v"
| "display_loop sep v (Some n # ns) =
     (if n = 0 then display_loop (sep @ ''0.'') v ns
      else display_loop ''.'' (v @ sep @ str n) ns)"

definition display :: "version \<Rightarrow> string" where
  "display version = display_loop '''' '''' version"

section \<open>The script\<close>

record outcome =
  stdout :: string
  stderr :: string
  exit_status :: nat

text \<open>The loops over \<^verbatim>\<open>tags\<close> and over \<^verbatim>\<open>branches\<close>, each appending the parsed tuples.\<close>

fun process_tags :: "registry \<Rightarrow> version list \<Rightarrow> string list \<Rightarrow> registry \<times> version list" where
  "process_tags reg versions [] = (reg, versions)"
| "process_tags reg versions (tag # tags) =
     (case process reg (tag_regexp_match (strip tag)) of
        (reg', None) \<Rightarrow> process_tags reg' versions tags
      | (reg', Some v) \<Rightarrow> process_tags reg' (versions @ [v]) tags)"

fun process_branches :: "registry \<Rightarrow> version list \<Rightarrow> string list \<Rightarrow> registry \<times> version list" where
  "process_branches reg versions [] = (reg, versions)"
| "process_branches reg versions (branch # branches) =
     (case process reg (branch_regexp_match (strip branch)) of
        (reg', None) \<Rightarrow> process_branches reg' versions branches
      | (reg', Some v) \<Rightarrow> process_branches reg' (versions @ [v]) branches)"

text \<open>The scan over the sorted versions, carrying \<^verbatim>\<open>final_version\<close>.\<close>

fun scan :: "version set \<Rightarrow> version \<Rightarrow> version option \<Rightarrow> version list \<Rightarrow> version option" where
  "scan ga my_branch final_version [] = final_version"
| "scan ga my_branch final_version (v # vs) =
     (case is_same_base_version ga my_branch v of
        None \<Rightarrow> (if final_version = None then scan ga my_branch final_version vs
                 else final_version)
      | Some candidate \<Rightarrow> scan ga my_branch (Some candidate) vs)"

text \<open>\<^verbatim>\<open>print x\<close> writes \<^verbatim>\<open>x\<close> and a newline.\<close>

definition print_line :: "string \<Rightarrow> string" where
  "print_line x = x @ [newline]"

text \<open>The test of the early exit: the branch is neither a development branch nor tagged.\<close>

definition early_exit :: "registry \<Rightarrow> version \<Rightarrow> bool" where
  "early_exit reg my_branch = (my_branch \<notin> is_dev_branch reg \<and> my_branch \<notin> is_ga_tag reg)"

text \<open>
  Everything after the current branch has been resolved: the tags, the early exit, the
  branches, the sort and the scan.
\<close>

definition resolve :: "registry \<Rightarrow> version \<Rightarrow> string list \<Rightarrow> string list \<Rightarrow> outcome" where
  "resolve reg0 my_branch tags branches =
     (let (reg1, versions1) = process_tags reg0 [] tags
      in if early_exit reg1 my_branch
         then \<lparr>stdout = print_line (display my_branch), stderr = '''', exit_status = 0\<rparr>
         else
           let (reg2, versions2) = process_branches reg1 versions1 branches;
               final_version =
                 (case scan (is_ga_tag reg2) my_branch None (sort versions2) of
                    None \<Rightarrow> my_branch
                  | Some fv \<Rightarrow> fv)
           in \<lparr>stdout = print_line (display final_version), stderr = '''', exit_status = 0\<rparr>)"

text \<open>
  The script as a function of its three inputs: the tag names, the branch names and the name
  of the current branch.
\<close>

definition mkversion :: "string list \<Rightarrow> string list \<Rightarrow> string \<Rightarrow> outcome" where
  "mkversion tags branches my_branch_name =
     (if suffix ''/master'' my_branch_name
      then resolve (empty_registry\<lparr>is_dev_branch := {DEFAULT_MASTER_VERSION}\<rparr>)
             DEFAULT_MASTER_VERSION tags branches
      else
        (case process empty_registry (branch_regexp_match (strip my_branch_name)) of
           (reg, None) \<Rightarrow>
             \<lparr>stdout = '''',
              stderr = print_line (''Bad branch: '' @ my_branch_name),
              exit_status = 1\<rparr>
         | (reg, Some my_branch) \<Rightarrow> resolve reg my_branch tags branches))"

section \<open>Specification-side definitions\<close>

text \<open>
  The scan as the specification words it: skip the candidates that do not match until the
  first match, keep the contiguous block of matches that starts there, and take the
  increment computed for the last candidate of that block.
\<close>

definition matches :: "version set \<Rightarrow> version \<Rightarrow> version \<Rightarrow> bool" where
  "matches ga ref v = (is_same_base_version ga ref v \<noteq> None)"

definition matching_block :: "version set \<Rightarrow> version \<Rightarrow> version list \<Rightarrow> version list" where
  "matching_block ga ref vs =
     takeWhile (matches ga ref) (dropWhile (\<lambda>v. \<not> matches ga ref v) vs)"

definition scan_spec :: "version set \<Rightarrow> version \<Rightarrow> version list \<Rightarrow> version option" where
  "scan_spec ga ref vs =
     (let block = matching_block ga ref vs
      in if block = [] then None else is_same_base_version ga ref (last block))"

text \<open>
  The display as the specification words it: the components before the first \<^verbatim>\<open>None\<close>,
  without the trailing run of zeros, written in decimal and joined by dots.
\<close>

definition defined_prefix :: "version \<Rightarrow> int list" where
  "defined_prefix t = map the (takeWhile (\<lambda>x. x \<noteq> None) t)"

definition strip_zeros :: "int list \<Rightarrow> int list" where
  "strip_zeros ns = rev (dropWhile (\<lambda>n. n = 0) (rev ns))"

definition shown :: "version \<Rightarrow> int list" where
  "shown t = strip_zeros (defined_prefix t)"

fun join_dots :: "string list \<Rightarrow> string" where
  "join_dots [] = ''''"
| "join_dots [x] = x"
| "join_dots (x # y # ys) = x @ ''.'' @ join_dots (y # ys)"

text \<open>
  A tuple with its trailing zero components replaced by \<^verbatim>\<open>None\<close>: the components that
  \<open>display\<close> writes, then \<^verbatim>\<open>None\<close> up to the length of the tuple.
\<close>

definition drop_trailing_zeros :: "version \<Rightarrow> version" where
  "drop_trailing_zeros t = map Some (shown t) @ replicate (length t - length (shown t)) None"

text \<open>
  A prefix-shaped tuple: four slots, a defined major component that is not negative, and
  no \<^verbatim>\<open>None\<close> followed by a defined component.
\<close>

definition prefix_shaped :: "version \<Rightarrow> bool" where
  "prefix_shaped t =
     (length t = 4
      \<and> (case t ! 0 of None \<Rightarrow> False | Some n \<Rightarrow> 0 \<le> n)
      \<and> (t ! 0 = None \<longrightarrow> t ! 1 = None)
      \<and> (t ! 1 = None \<longrightarrow> t ! 2 = None)
      \<and> (t ! 2 = None \<longrightarrow> t ! 3 = None))"

section \<open>Auxiliary definitions for the proofs\<close>

text \<open>
  The tail of \<open>version_core\<close> by recursion on the number of optional components still to
  come: \<open>k\<close> copies of \<^verbatim>\<open>(\.(\d+)|)\<close>, then the suffix alternatives and \<^verbatim>\<open>$\<close>.
\<close>

fun opt_components :: "nat \<Rightarrow> string list \<Rightarrow> string \<Rightarrow> match_obj list" where
  "opt_components 0 alts s =
     List.bind (literal_alts alts s) (\<lambda>(g8, r5). if at_dollar r5 then [[Some g8]] else [])"
| "opt_components (Suc k) alts s =
     List.bind (opt_component s) (\<lambda>(g, gi, r).
       map (\<lambda>gs. Some g # gi # gs) (opt_components k alts r))"

text \<open>The inner groups (3, 5, 7) of such a tail are its entries at the odd positions.\<close>

fun inner_groups :: "match_obj \<Rightarrow> string option list" where
  "inner_groups (a # b # rest) = b # inner_groups rest"
| "inner_groups rest = []"

fun trailing_nones :: "'a option list \<Rightarrow> bool" where
  "trailing_nones [] = True"
| "trailing_nones (None # rest) = list_all (\<lambda>g. g = None) rest"
| "trailing_nones (Some x # rest) = trailing_nones rest"

text \<open>
  What the proofs carry about a parsed tuple: four slots, a defined first slot, no defined
  slot after a \<^verbatim>\<open>None\<close>, and no negative component.
\<close>

definition nonneg_slot :: "int option \<Rightarrow> bool" where
  "nonneg_slot x = (case x of None \<Rightarrow> True | Some n \<Rightarrow> 0 \<le> n)"

definition parsed_shape :: "version \<Rightarrow> bool" where
  "parsed_shape t =
     (length t = 4 \<and> t ! 0 \<noteq> None \<and> trailing_nones (tl t) \<and> list_all nonneg_slot t)"

text \<open>
  Vocabulary for the strings that \<open>display\<close> produces: an input that does not start with a
  digit, a non-empty run of digits, components written each after a dot, a suffix that
  ends a match, and the characters that are neither white space nor a slash.
\<close>

definition no_digit_start :: "string \<Rightarrow> bool" where
  "no_digit_start r = (case r of [] \<Rightarrow> True | c # _ \<Rightarrow> \<not> is_digit c)"

definition digit_string :: "string \<Rightarrow> bool" where
  "digit_string d = (d \<noteq> [] \<and> list_all is_digit d)"

definition dotted :: "string list \<Rightarrow> string" where
  "dotted ds = concat (map (\<lambda>d. CHR ''.'' # d) ds)"

definition good_suffix :: "string list \<Rightarrow> string \<Rightarrow> bool" where
  "good_suffix alts sfx =
     (no_digit_start sfx \<and> dot_digits sfx = [] \<and> opt_components 0 alts sfx \<noteq> [])"

definition plain_char :: "char \<Rightarrow> bool" where
  "plain_char c = (\<not> is_space c \<and> c \<noteq> CHR ''/'')"

section \<open>Base match and increment\<close>

lemma isbv_loop_wildcard:
  assumes "i < 4" "ref ! i = None" "\<forall>j. k \<le> j \<and> j < i \<longrightarrow> ref ! j \<noteq> None"
    "other ! i = None" "\<not> is_ga ga other" "k \<le> i"
  shows "isbv_loop ga ref other k =
     (if \<forall>j. k \<le> j \<and> j < i \<longrightarrow> ref ! j = other ! j then Some ref else None)"
  using assms
proof (induction "i - k" arbitrary: k)
  case 0
  then have "k = i" by simp
  with 0 show ?case by simp
next
  case (Suc d)
  then have lt: "k < i" and d: "d = i - Suc k" and le: "Suc k \<le> i" by simp_all
  have nn: "ref ! k \<noteq> None" using Suc.prems(3) lt by simp
  have later: "\<forall>j. Suc k \<le> j \<and> j < i \<longrightarrow> ref ! j \<noteq> None"
    using Suc.prems(3) by simp
  have ih: "isbv_loop ga ref other (Suc k) =
     (if \<forall>j. Suc k \<le> j \<and> j < i \<longrightarrow> ref ! j = other ! j then Some ref else None)"
    by (rule Suc.hyps(1)[OF d Suc.prems(1) Suc.prems(2) later Suc.prems(4) Suc.prems(5) le])
  have k4: "k < 4" using lt Suc.prems(1) by simp
  have unroll: "(\<forall>j. k \<le> j \<and> j < i \<longrightarrow> ref ! j = other ! j) \<longleftrightarrow>
      (ref ! k = other ! k \<and> (\<forall>j. Suc k \<le> j \<and> j < i \<longrightarrow> ref ! j = other ! j))"
    using lt by (metis Suc_leI le_eq_less_or_eq le_simps(3))
  have step: "isbv_loop ga ref other k =
      (if ref ! k \<noteq> other ! k then None else isbv_loop ga ref other (Suc k))"
    by (subst isbv_loop.simps) (simp add: k4 nn del: isbv_loop.simps)
  show ?case
    unfolding step ih unroll by simp
qed

text \<open>
  C1, as amended. Let \<open>i\<close> be the first index at which \<open>ref\<close> is \<^verbatim>\<open>None\<close>. When \<open>other\<close> is
  also \<^verbatim>\<open>None\<close> there and \<open>is_ga other\<close> is false, \<open>is_same_base_version\<close> returns \<open>ref\<close>
  itself, unchanged, if \<open>other\<close> agrees with \<open>ref\<close> at every index before \<open>i\<close>; it returns
  the no-match value \<^verbatim>\<open>None\<close> only if they differ at some earlier index.
\<close>

theorem is_same_base_version_wildcard_undefined:
  assumes "i < 4" "ref ! i = None" "\<forall>j<i. ref ! j \<noteq> None"
    "other ! i = None" "\<not> is_ga ga other"
  shows "is_same_base_version ga ref other =
     (if \<forall>j<i. ref ! j = other ! j then Some ref else None)"
  using isbv_loop_wildcard[of i ref 0 other ga] assms by (simp add: is_same_base_version_def)

theorem is_same_base_version_wildcard_undefined_witness:
  "is_same_base_version {} [Some 1, Some 2, None, None] [Some 1, Some 3, None, None] = None
   \<and> is_same_base_version {} [Some 1, Some 2, None, None] [Some 1, Some 2, None, None]
       = Some [Some 1, Some 2, None, None]"
  using is_same_base_version_wildcard_undefined
          [of 2 "[Some 1, Some 2, None, None]" "[Some 1, Some 3, None, None]" "{}"]
        is_same_base_version_wildcard_undefined
          [of 2 "[Some 1, Some 2, None, None]" "[Some 1, Some 2, None, None]" "{}"]
  by (simp add: is_ga_def positive_def numeral_3_eq_3 numeral_2_eq_2 less_Suc_eq)

text \<open>
  C1 as stated fails: with \<open>ref = other = (1, None, None, None)\<close> and no GA tag, index 1 is
  the first wildcard of \<open>ref\<close>, \<open>other\<close> is undefined there and is not GA, and yet the call
  returns \<open>ref\<close>, not \<^verbatim>\<open>None\<close>.
\<close>

theorem is_same_base_version_wildcard_counterexample:
  "(1::nat) < 4
   \<and> [Some 1, None, None, None] ! 1 = (None :: int option)
   \<and> [Some 1, None, None, None] ! 0 \<noteq> (None :: int option)
   \<and> \<not> is_ga {} [Some 1, None, None, None]
   \<and> is_same_base_version {} [Some 1, None, None, None] [Some 1, None, None, None]
       = Some [Some 1, None, None, None]
   \<and> is_same_base_version {} [Some 1, None, None, None] [Some 1, None, None, None] \<noteq> None"
  by (simp add: is_same_base_version_def is_ga_def positive_def numeral_3_eq_3 numeral_2_eq_2)

section \<open>GA resolution\<close>

lemma is_ga_unfold:
  "is_ga ga v \<longleftrightarrow>
     (v \<in> ga \<or> \<not> positive (v ! 3) \<and>
       (v[3 := None] \<in> ga \<or> \<not> positive (v[3 := None] ! 2) \<and>
         (v[3 := None, 2 := None] \<in> ga \<or> \<not> positive (v[3 := None, 2 := None] ! 1) \<and>
           v[3 := None, 2 := None, 1 := None] \<in> ga)))"
  by (simp add: is_ga_def numeral_3_eq_3 numeral_2_eq_2)

lemma length_four: "length (v::'a list) = 4 \<Longrightarrow> \<exists>a b c d. v = [a, b, c, d]"
  by (auto simp add: length_Suc_conv eval_nat_numeral)

text \<open>
  C3. When \<open>(a, b, None, None)\<close> is the only recorded GA tuple, \<open>is_ga (a, b, 0, 0)\<close> is true
  and \<open>is_ga (a, b, 1, 0)\<close> is false, for all \<open>a\<close> and \<open>b\<close>.
\<close>

theorem is_ga_rollup:
  "is_ga {[Some a, Some b, None, None]} [Some a, Some b, Some 0, Some 0]
   \<and> \<not> is_ga {[Some a, Some b, None, None]} [Some a, Some b, Some 1, Some 0]"
  by (simp add: is_ga_unfold positive_def numeral_3_eq_3 numeral_2_eq_2)

text \<open>
  C10. For every 4-tuple \<open>v\<close> and every GA set: the only tuples whose membership decides
  \<open>is_ga\<close> are \<open>v\<close> and \<open>v\<close> with the indices 3, then 2, then 1 collapsed to \<^verbatim>\<open>None\<close>, so each of
  them keeps the major component of \<open>v\<close> and the coarsest is \<open>(major, None, None, None)\<close>;
  only the components 3, 2 and 1 are tested for being positive, so whatever stands at index 0,
  the call returns true when those three are not positive and \<open>(major, None, None, None)\<close>
  is recorded; and for a defined major component the tuple \<open>(None, None, None, None)\<close>
  plays no part: recording it changes nothing.
\<close>

theorem is_ga_keeps_major:
  assumes "length v = 4"
  shows "(is_ga ga v \<longleftrightarrow>
           (v \<in> ga \<or> \<not> positive (v ! 3) \<and>
             ([v ! 0, v ! 1, v ! 2, None] \<in> ga \<or> \<not> positive (v ! 2) \<and>
               ([v ! 0, v ! 1, None, None] \<in> ga \<or> \<not> positive (v ! 1) \<and>
                 [v ! 0, None, None, None] \<in> ga))))
     \<and> (\<not> positive (v ! 1) \<and> \<not> positive (v ! 2) \<and> \<not> positive (v ! 3)
          \<and> [v ! 0, None, None, None] \<in> ga \<longrightarrow> is_ga ga v)
     \<and> (v ! 0 \<noteq> None \<longrightarrow> is_ga (insert [None, None, None, None] ga) v = is_ga ga v)"
proof -
  obtain a b c d where v: "v = [a, b, c, d]" using length_four[OF assms] by blast
  show ?thesis
    unfolding is_ga_unfold v by (auto simp add: numeral_3_eq_3 numeral_2_eq_2)
qed

theorem is_ga_keeps_major_witness:
  "length [Some (7::int), Some 0, None, None] = 4
   \<and> is_ga {[Some 7, None, None, None]} [Some 7, Some 0, None, None]
   \<and> \<not> is_ga {[None, None, None, None]} [Some 7, Some 0, None, None]"
  using is_ga_keeps_major [of "[Some 7, Some 0, None, None]" "{[Some 7, None, None, None]}"]
        is_ga_keeps_major [of "[Some 7, Some 0, None, None]" "{}"]
  by (simp add: positive_def)

section \<open>The scan of the resolver\<close>

lemma scan_started:
  "scan ga ref (Some c) vs =
     (if takeWhile (matches ga ref) vs = [] then Some c
      else is_same_base_version ga ref (last (takeWhile (matches ga ref) vs)))"
proof (induction vs arbitrary: c)
  case Nil
  show ?case by simp
next
  case (Cons v vs)
  show ?case
  proof (cases "is_same_base_version ga ref v")
    case None
    then have "\<not> matches ga ref v" by (simp add: matches_def)
    with None show ?thesis by simp
  next
    case (Some c')
    then have "matches ga ref v" by (simp add: matches_def)
    with Some show ?thesis using Cons.IH[of c'] by simp
  qed
qed

text \<open>
  C4. For every candidate sequence, the scan started with no result returns what the
  specification describes: candidates that do not match are skipped while nothing has
  matched, the first candidate that fails after a match ends the scan, and the result is
  the increment computed for the last matching candidate before that point (no result when
  nothing matches).
\<close>

theorem scan_last_of_first_matching_block:
  "scan ga ref None vs = scan_spec ga ref vs"
proof (induction vs)
  case Nil
  show ?case by (simp add: scan_spec_def matching_block_def)
next
  case (Cons v vs)
  show ?case
  proof (cases "is_same_base_version ga ref v")
    case None
    then have "\<not> matches ga ref v" by (simp add: matches_def)
    with None show ?thesis using Cons.IH by (simp add: scan_spec_def matching_block_def)
  next
    case (Some c')
    then have "matches ga ref v" by (simp add: matches_def)
    with Some show ?thesis using scan_started[of ga ref c' vs]
      by (simp add: scan_spec_def matching_block_def)
  qed
qed

section \<open>Branch names without a slash\<close>

lemma dot_star_subset: "r \<in> set (dot_star s) \<Longrightarrow> set r \<subseteq> set s"
  by (induction s arbitrary: r) (auto split: if_splits)

lemma slash_free_no_match:
  assumes "CHR ''/'' \<notin> set s"
  shows "branch_regexp_match s = None"
proof -
  let ?f = "\<lambda>r. case r of [] \<Rightarrow> [] | c # r' \<Rightarrow>
         if c = CHR ''/'' then version_core branch_alts r' else []"
  have "\<forall>r \<in> set (dot_star s). ?f r = []"
    using assms dot_star_subset by (fastforce split: list.splits)
  then have "List.bind (dot_star s) ?f = []"
    unfolding List.bind_def by simp
  then show ?thesis
    unfolding branch_regexp_match_def first_match_def by simp
qed

lemma set_strip: "set (strip s) \<subseteq> set s"
  unfolding strip_def by (metis set_rev set_dropWhileD subsetI)

lemma suffix_master_slash: "suffix ''/master'' s \<Longrightarrow> CHR ''/'' \<in> set s"
  by (auto simp: suffix_def)

text \<open>
  C9. A string without a slash is rejected by the branch pattern, trimmed or not, and as the
  name of the current branch it is fatal: nothing on standard output, the diagnostic on the
  error stream, exit status 1. The bare name \<open>master\<close> is one such string.
\<close>

theorem slash_free_branch_is_fatal:
  assumes "CHR ''/'' \<notin> set s"
  shows "branch_regexp_match s = None
     \<and> branch_regexp_match (strip s) = None
     \<and> mkversion tags branches s =
         \<lparr>stdout = '''', stderr = print_line (''Bad branch: '' @ s), exit_status = 1\<rparr>"
proof -
  have "CHR ''/'' \<notin> set (strip s)" using assms set_strip by blast
  then have m: "branch_regexp_match (strip s) = None" by (rule slash_free_no_match)
  have "\<not> suffix ''/master'' s" using assms suffix_master_slash by blast
  with m slash_free_no_match[OF assms] show ?thesis by (simp add: mkversion_def process_def)
qed

theorem slash_free_branch_is_fatal_witness:
  "CHR ''/'' \<notin> set ''master''
   \<and> branch_regexp_match ''master'' = None
   \<and> mkversion [''v1GA''] [''origin/1.next''] ''master'' =
       \<lparr>stdout = '''', stderr = print_line ''Bad branch: master'', exit_status = 1\<rparr>"
  using slash_free_branch_is_fatal [of "''master''" "[''v1GA'']" "[''origin/1.next'']"]
  by simp

section \<open>The scenario of a tagged branch\<close>

text \<open>
  C2, as amended. With the tags \<open>[v2GA]\<close>, no branches and the current branch \<open>origin/2\<close>, the
  branch tuple \<open>(2, None, None, None)\<close> is in the GA set once the tags are read, so the early
  exit is not taken, and the program prints \<open>2.1\<close>.
\<close>

theorem tagged_branch_scenario:
  "\<not> early_exit
       (fst (process_tags
               (fst (process empty_registry (branch_regexp_match (strip ''origin/2''))))
               [] [''v2GA'']))
       [Some 2, None, None, None]
   \<and> snd (process empty_registry (branch_regexp_match (strip ''origin/2'')))
       = Some [Some 2, None, None, None]
   \<and> mkversion [''v2GA''] [] ''origin/2'' =
       \<lparr>stdout = print_line ''2.1'', stderr = '''', exit_status = 0\<rparr>"
  by code_simp

text \<open>C2 as stated fails: the early exit is not taken and the output is not \<open>2\<close>.\<close>

theorem tagged_branch_scenario_counterexample:
  "\<not> (early_exit
         (fst (process_tags
                 (fst (process empty_registry (branch_regexp_match (strip ''origin/2''))))
                 [] [''v2GA'']))
         [Some 2, None, None, None]
       \<and> stdout (mkversion [''v2GA''] [] ''origin/2'') = print_line ''2'')"
  by code_simp

section \<open>The display formatter\<close>

lemma strip_zeros_Cons:
  "strip_zeros (n # ns) = (if n = 0 \<and> strip_zeros ns = [] then [] else n # strip_zeros ns)"
  by (auto simp add: strip_zeros_def dropWhile_append)

lemma strip_zeros_Nil: "strip_zeros [] = []"
  by (simp add: strip_zeros_def)

lemma shown_simps:
  "shown [] = []"
  "shown (None # t) = []"
  "shown (Some n # t) = (if n = 0 \<and> shown t = [] then [] else n # shown t)"
  by (simp_all add: shown_def defined_prefix_def strip_zeros_Cons strip_zeros_Nil)

lemma join_dots_Cons: "join_dots (x # xs) = x @ (if xs = [] then '''' else ''.'' @ join_dots xs)"
  by (cases xs) simp_all

lemma str_zero: "str 0 = ''0''"
  by (simp add: str_def digit_char_def str_nat.simps)

lemma display_loop_eq:
  "display_loop sep v t =
     v @ (if shown t = [] then '''' else sep @ join_dots (map str (shown t)))"
proof (induction sep v t rule: display_loop.induct)
  case (1 sep v)
  show ?case by (simp add: shown_simps)
next
  case (2 sep v ns)
  show ?case by (simp add: shown_simps)
next
  case (3 sep v n ns)
  show ?case
  proof (cases "n = 0")
    case True
    then show ?thesis using 3(1) by (simp add: shown_simps join_dots_Cons str_zero)
  next
    case False
    then show ?thesis using 3(2) by (simp add: shown_simps join_dots_Cons)
  qed
qed

lemma display_eq: "display t = join_dots (map str (shown t))"
  by (simp add: display_def display_loop_eq)

text \<open>
  C5. For every version tuple, \<open>display\<close> writes the components before the first \<^verbatim>\<open>None\<close>,
  left to right and joined by dots, without the trailing run of zero components; zeros
  followed by a non-zero component stay. The six examples of the specification follow.
\<close>

theorem display_drops_trailing_zeros:
  "display t = join_dots (map str (strip_zeros (defined_prefix t)))
   \<and> display [Some 1, Some 0, Some 2, None] = ''1.0.2''
   \<and> display [Some 1, Some 0, None, None] = ''1''
   \<and> display [Some 1, Some 2, Some 0, Some 0] = ''1.2''
   \<and> display [Some 1, Some 0, Some 0, None] = ''1''
   \<and> display [Some 1, Some 0, Some 2, Some 0] = ''1.0.2''
   \<and> display [None, None, None, None] = ''''"
proof -
  have "display t = join_dots (map str (strip_zeros (defined_prefix t)))"
    using display_eq[of t] by (simp add: shown_def)
  moreover have "display [Some 1, Some 0, Some 2, None] = ''1.0.2''"
    by (simp add: display_def str_def digit_char_def str_nat.simps)
  moreover have "display [Some 1, Some 0, None, None] = ''1''"
    by (simp add: display_def str_def digit_char_def str_nat.simps)
  moreover have "display [Some 1, Some 2, Some 0, Some 0] = ''1.2''"
    by (simp add: display_def str_def digit_char_def str_nat.simps)
  moreover have "display [Some 1, Some 0, Some 0, None] = ''1''"
    by (simp add: display_def str_def digit_char_def str_nat.simps)
  moreover have "display [Some 1, Some 0, Some 2, Some 0] = ''1.0.2''"
    by (simp add: display_def str_def digit_char_def str_nat.simps)
  moreover have "display [None, None, None, None] = ''''"
    by (simp add: display_def)
  ultimately show ?thesis by blast
qed

section \<open>The outcome of a run\<close>

lemma digit_char_cases:
  "n < 10 \<Longrightarrow> digit_char n \<in> set ''0123456789''"
  unfolding digit_char_def by (rule nth_mem) simp

lemma str_nat_digits: "set (str_nat n) \<subseteq> set ''0123456789''"
proof (induction n rule: str_nat.induct)
  case (1 n)
  show ?case
  proof (cases "n < 10")
    case True
    then show ?thesis using digit_char_cases[of n] by (subst str_nat.simps) simp
  next
    case False
    have "n mod 10 < 10" by simp
    then have "digit_char (n mod 10) \<in> set ''0123456789''" by (rule digit_char_cases)
    then show ?thesis using False 1 by (subst str_nat.simps) simp
  qed
qed

lemma newline_not_in_str: "newline \<notin> set (str n)"
  using str_nat_digits[of "nat n"] str_nat_digits[of "nat (- n)"]
  by (auto simp add: str_def newline_def)

lemma display_loop_no_newline:
  "newline \<notin> set sep \<Longrightarrow> newline \<notin> set v \<Longrightarrow> newline \<notin> set (display_loop sep v t)"
  by (induction sep v t rule: display_loop.induct) (simp_all add: newline_not_in_str, simp add: newline_def)

lemma display_no_newline: "newline \<notin> set (display t)"
  by (simp add: display_def display_loop_no_newline)

lemma resolve_form:
  "\<exists>v. resolve reg b tags branches =
         \<lparr>stdout = print_line (display v), stderr = '''', exit_status = 0\<rparr>"
  unfolding resolve_def Let_def by (auto split: prod.splits option.splits)

text \<open>
  C7. For all inputs: when the name of the current branch does not end in \<open>/master\<close> and
  the branch pattern rejects it (trimmed, as the script matches it), the run writes nothing
  to standard output, writes the diagnostic with the name to the error stream and exits
  with status 1; in every other case it writes one line, the display of some version
  (which holds no newline), writes nothing to the error stream and exits with status 0.
\<close>

theorem mkversion_outcome:
  "(\<not> suffix ''/master'' name \<and> branch_regexp_match (strip name) = None \<longrightarrow>
      mkversion tags branches name =
        \<lparr>stdout = '''', stderr = print_line (''Bad branch: '' @ name), exit_status = 1\<rparr>)
   \<and> (\<not> (\<not> suffix ''/master'' name \<and> branch_regexp_match (strip name) = None) \<longrightarrow>
      (\<exists>v. mkversion tags branches name =
         \<lparr>stdout = print_line (display v), stderr = '''', exit_status = 0\<rparr>
         \<and> newline \<notin> set (display v)))"
proof (cases "suffix ''/master'' name")
  case True
  then show ?thesis using resolve_form display_no_newline by (simp add: mkversion_def)
next
  case False
  show ?thesis
  proof (cases "branch_regexp_match (strip name)")
    case None
    with False show ?thesis by (simp add: mkversion_def process_def)
  next
    case (Some m)
    obtain reg b where p: "process empty_registry (Some m) = (reg, Some b)"
      by (simp add: process_def Let_def)
    with False Some show ?thesis using resolve_form[of reg b tags branches] display_no_newline
      by (simp add: mkversion_def)
  qed
qed

theorem mkversion_outcome_witness:
  "mkversion [''v1.2GA''] [''origin/1.next''] ''feature/login'' =
     \<lparr>stdout = '''', stderr = print_line ''Bad branch: feature/login'', exit_status = 1\<rparr>
   \<and> (\<exists>v. mkversion [''v1.2GA''] [''origin/1.next''] ''origin/1.next'' =
         \<lparr>stdout = print_line (display v), stderr = '''', exit_status = 0\<rparr>)"
proof -
  have a: "\<not> suffix ''/master'' ''feature/login''" by (simp add: suffix_def)
  have b: "branch_regexp_match (strip ''feature/login'') = None" by code_simp
  have c: "\<not> suffix ''/master'' ''origin/1.next''" by (simp add: suffix_def)
  have d: "branch_regexp_match (strip ''origin/1.next'') \<noteq> None" by code_simp
  show ?thesis
    using mkversion_outcome [of "''feature/login''" "[''v1.2GA'']" "[''origin/1.next'']"]
          mkversion_outcome [of "''origin/1.next''" "[''v1.2GA'']" "[''origin/1.next'']"]
          a b c d
    by auto
qed

section \<open>The shape of parsed tuples\<close>

lemma map_bind: "map f (List.bind xs g) = List.bind xs (\<lambda>x. map f (g x))"
  by (simp add: List.bind_def map_concat comp_def)

lemma version_core_eq:
  "version_core alts s =
     List.bind (digits_plus s) (\<lambda>(g1, r1). map (\<lambda>gs. Some g1 # gs) (opt_components 3 alts r1))"
  by (simp add: version_core_def numeral_3_eq_3 map_bind case_prod_unfold
        if_distrib[where f = "map _"] cong: if_cong)

lemma bind_append: "List.bind (xs @ ys) f = List.bind xs f @ List.bind ys f"
  by (simp add: List.bind_def)

lemma bind_empty_iff: "List.bind xs f = [] \<longleftrightarrow> (\<forall>x \<in> set xs. f x = [])"
  by (simp add: List.bind_def)

lemma hd_bind:
  "List.bind xs f \<noteq> [] \<Longrightarrow> \<exists>x \<in> set xs. f x \<noteq> [] \<and> hd (List.bind xs f) = hd (f x)"
proof (induction xs)
  case Nil
  then show ?case by simp
next
  case (Cons x xs)
  show ?case
  proof (cases "f x = []")
    case True
    with Cons show ?thesis by (simp add: List.bind_def)
  next
    case False
    then show ?thesis by (simp add: List.bind_def)
  qed
qed

lemma opt_components_Suc:
  "opt_components (Suc k) alts r =
     List.bind (dot_digits r) (\<lambda>(g, gi, r'). map (\<lambda>gs. Some g # gi # gs) (opt_components k alts r'))
     @ map (\<lambda>gs. Some '''' # None # gs) (opt_components k alts r)"
  by (simp add: opt_component_def bind_append)

lemma opt_components_0_form:
  "gs \<in> set (opt_components 0 alts r) \<Longrightarrow> \<exists>g8. gs = [Some g8]"
  by (auto simp add: List.bind_def split: if_splits)

lemma opt_components_Suc_form:
  "gs \<in> set (opt_components (Suc k) alts r) \<Longrightarrow>
   \<exists>g gi gs' r'. gs = Some g # gi # gs' \<and> gs' \<in> set (opt_components k alts r')"
  by (auto simp add: List.bind_def)

lemma opt_components_0_inner:
  assumes "opt_components 0 alts r \<noteq> []"
  shows "inner_groups (hd (opt_components 0 alts r)) = []"
proof -
  have "hd (opt_components 0 alts r) \<in> set (opt_components 0 alts r)"
    using assms by (rule hd_in_set)
  then obtain g8 where "hd (opt_components 0 alts r) = [Some g8]"
    using opt_components_0_form by blast
  then show ?thesis by simp
qed

lemma dot_digits_inner: "(g, gi, r') \<in> set (dot_digits r) \<Longrightarrow> \<exists>d. gi = Some d"
  by (auto simp add: dot_digits_def split: list.splits if_splits)

lemma opt_components_mono:
  "opt_components k alts r \<noteq> [] \<Longrightarrow> opt_components (Suc k) alts r \<noteq> []"
  unfolding opt_components_Suc by simp

lemma opt_components_all_none:
  "\<forall>x \<in> set (dot_digits r). opt_components k alts (snd (snd x)) = [] \<Longrightarrow>
   opt_components k alts r \<noteq> [] \<Longrightarrow>
   list_all (\<lambda>g. g = None) (inner_groups (hd (opt_components k alts r)))"
proof (induction k)
  case 0
  then show ?case by (simp add: opt_components_0_inner del: opt_components.simps)
next
  case (Suc k)
  have none: "\<forall>x \<in> set (dot_digits r). opt_components k alts (snd (snd x)) = []"
    using Suc.prems(1) opt_components_mono by blast
  then have front: "List.bind (dot_digits r)
      (\<lambda>(g, gi, r'). map (\<lambda>gs. Some g # gi # gs) (opt_components k alts r')) = []"
    by (auto simp add: bind_empty_iff)
  have eq: "opt_components (Suc k) alts r = map (\<lambda>gs. Some '''' # None # gs) (opt_components k alts r)"
    unfolding opt_components_Suc front by simp
  with Suc.prems(2) have ne: "opt_components k alts r \<noteq> []" by simp
  have "list_all (\<lambda>g. g = None) (inner_groups (hd (opt_components k alts r)))"
    by (rule Suc.IH[OF none ne])
  then show ?case unfolding eq using ne by (simp add: hd_map)
qed

lemma opt_components_trailing_nones:
  "opt_components k alts r \<noteq> [] \<Longrightarrow>
   trailing_nones (inner_groups (hd (opt_components k alts r)))"
proof (induction k arbitrary: r)
  case 0
  then show ?case by (simp add: opt_components_0_inner del: opt_components.simps)
next
  case (Suc k)
  let ?front = "List.bind (dot_digits r)
      (\<lambda>(g, gi, r'). map (\<lambda>gs. Some g # gi # gs) (opt_components k alts r'))"
  show ?case
  proof (cases "?front = []")
    case True
    then have none: "\<forall>x \<in> set (dot_digits r). opt_components k alts (snd (snd x)) = []"
      by (auto simp add: bind_empty_iff)
    have eq: "opt_components (Suc k) alts r = map (\<lambda>gs. Some '''' # None # gs) (opt_components k alts r)"
      unfolding opt_components_Suc True by simp
    with Suc.prems have ne: "opt_components k alts r \<noteq> []" by simp
    have "list_all (\<lambda>g. g = None) (inner_groups (hd (opt_components k alts r)))"
      by (rule opt_components_all_none[OF none ne])
    then show ?thesis unfolding eq using ne by (simp add: hd_map)
  next
    case False
    then obtain x where x: "x \<in> set (dot_digits r)"
      and ne: "(case x of (g, gi, r') \<Rightarrow> map (\<lambda>gs. Some g # gi # gs) (opt_components k alts r')) \<noteq> []"
      and h: "hd ?front = hd (case x of (g, gi, r') \<Rightarrow> map (\<lambda>gs. Some g # gi # gs) (opt_components k alts r'))"
      using hd_bind[OF False] by blast
    obtain g gi r' where xe: "x = (g, gi, r')" by (cases x) auto
    obtain d where d: "gi = Some d" using dot_digits_inner x xe by blast
    have ne': "opt_components k alts r' \<noteq> []" using ne xe by simp
    have "hd (opt_components (Suc k) alts r) = hd ?front"
      unfolding opt_components_Suc using False by simp
    also have "\<dots> = Some g # Some d # hd (opt_components k alts r')"
      using h xe d ne' by (simp add: hd_map)
    finally show ?thesis using Suc.IH[OF ne'] by simp
  qed
qed

lemma opt_components_3_form:
  assumes "gs \<in> set (opt_components 3 alts r)"
  shows "\<exists>g2 g3 g4 g5 g6 g7 g8. gs = [Some g2, g3, Some g4, g5, Some g6, g7, Some g8]"
proof -
  from assms obtain g2 g3 gs2 r2
    where 1: "gs = Some g2 # g3 # gs2" and m2: "gs2 \<in> set (opt_components (Suc (Suc 0)) alts r2)"
    unfolding numeral_3_eq_3 using opt_components_Suc_form by blast
  from m2 obtain g4 g5 gs3 r3
    where 2: "gs2 = Some g4 # g5 # gs3" and m3: "gs3 \<in> set (opt_components (Suc 0) alts r3)"
    using opt_components_Suc_form by blast
  from m3 obtain g6 g7 gs4 r4
    where 3: "gs3 = Some g6 # g7 # gs4" and m4: "gs4 \<in> set (opt_components 0 alts r4)"
    using opt_components_Suc_form by blast
  from m4 obtain g8 where 4: "gs4 = [Some g8]"
    using opt_components_0_form by blast
  show ?thesis unfolding 1 2 3 4 by blast
qed

lemma version_core_hd:
  assumes "version_core alts s \<noteq> []"
  shows "\<exists>g1 g2 g3 g4 g5 g6 g7 g8.
     hd (version_core alts s) = [Some g1, Some g2, g3, Some g4, g5, Some g6, g7, Some g8]
     \<and> trailing_nones [g3, g5, g7]"
proof -
  let ?f = "\<lambda>(g1, r1). map (\<lambda>gs. Some g1 # gs) (opt_components 3 alts r1)"
  obtain x where x: "x \<in> set (digits_plus s)" and ne: "?f x \<noteq> []"
    and h: "hd (version_core alts s) = hd (?f x)"
    using hd_bind[of "digits_plus s" ?f] assms unfolding version_core_eq by blast
  obtain g1 r1 where xe: "x = (g1, r1)" by (cases x) auto
  have ne': "opt_components 3 alts r1 \<noteq> []" using ne xe by simp
  then have "hd (opt_components 3 alts r1) \<in> set (opt_components 3 alts r1)" by simp
  then obtain g2 g3 g4 g5 g6 g7 g8
    where f: "hd (opt_components 3 alts r1) = [Some g2, g3, Some g4, g5, Some g6, g7, Some g8]"
    using opt_components_3_form by blast
  have "trailing_nones (inner_groups (hd (opt_components 3 alts r1)))"
    by (rule opt_components_trailing_nones[OF ne'])
  then have "trailing_nones [g3, g5, g7]" unfolding f by simp
  moreover have "hd (version_core alts s) = [Some g1, Some g2, g3, Some g4, g5, Some g6, g7, Some g8]"
    using h xe ne' f by (simp add: hd_map)
  ultimately show ?thesis by blast
qed

lemma digit_val_nonneg: "0 \<le> digit_val c"
  by (simp add: digit_val_def)

lemma foldl_digits_nonneg: "0 \<le> a \<Longrightarrow> 0 \<le> foldl (\<lambda>a c. 10 * a + digit_val c) a x"
  by (induction x arbitrary: a) (simp_all add: digit_val_nonneg)

lemma py_int_nonneg: "0 \<le> py_int x"
  by (simp add: py_int_def foldl_digits_nonneg)

lemma map_option_py_int_nonneg: "Some n = map_option py_int g \<Longrightarrow> 0 \<le> n"
  using py_int_nonneg by (cases g) auto

lemma process_loop_groups:
  "process_loop [g0, Some g1, g2, g3, g4, g5, g6, g7, g8] 1 [] =
     [Some (py_int g1), map_option py_int g3, map_option py_int g5, map_option py_int g7]"
  by (simp add: group_def map_option_case)

lemma snd_process_Some: "snd (process reg (Some m)) = Some (process_loop m 1 [])"
  by (simp add: process_def Let_def)

lemma first_match_Some:
  "first_match s ms = Some m \<Longrightarrow> ms \<noteq> [] \<and> m = Some (matched_text s) # hd ms"
  by (cases ms) (simp_all add: first_match_def)

lemma tag_match_core:
  assumes "tag_regexp_match s = Some m"
  shows "\<exists>r. version_core tag_alts r \<noteq> [] \<and> m = Some (matched_text s) # hd (version_core tag_alts r)"
proof -
  from assms obtain c r where s: "s = c # r" and c: "c = CHR ''v''"
    by (cases s) (auto simp add: tag_regexp_match_def first_match_def split: if_splits)
  with assms have "first_match s (version_core tag_alts r) = Some m"
    by (simp add: tag_regexp_match_def)
  then show ?thesis using first_match_Some by blast
qed


lemma branch_match_core:
  assumes "branch_regexp_match s = Some m"
  shows "\<exists>r. version_core branch_alts r \<noteq> [] \<and> m = Some (matched_text s) # hd (version_core branch_alts r)"
proof -
  let ?f = "\<lambda>r. case r of [] \<Rightarrow> [] | c # r' \<Rightarrow>
              if c = CHR ''/'' then version_core branch_alts r' else []"
  from assms have fm: "first_match s (List.bind (dot_star s) ?f) = Some m"
    by (simp add: branch_regexp_match_def)
  then have ne: "List.bind (dot_star s) ?f \<noteq> []" and m: "m = Some (matched_text s) # hd (List.bind (dot_star s) ?f)"
    using first_match_Some by blast+
  obtain x where "?f x \<noteq> []" and h: "hd (List.bind (dot_star s) ?f) = hd (?f x)"
    using hd_bind[OF ne] by blast
  then obtain r' where "?f x = version_core branch_alts r'" and "version_core branch_alts r' \<noteq> []"
    by (cases x) (auto split: if_splits)
  with m h show ?thesis by auto
qed

lemma parsed_shape_iff:
  "parsed_shape t \<longleftrightarrow>
     (\<exists>a b c d. t = [Some a, b, c, d] \<and> trailing_nones [b, c, d]
        \<and> (\<forall>n. Some n \<in> set t \<longrightarrow> 0 \<le> n))"
proof
  assume ps: "parsed_shape t"
  then obtain a' b c d where t: "t = [a', b, c, d]"
    using length_four[of t] by (auto simp add: parsed_shape_def)
  obtain a where a: "a' = Some a" using ps t by (cases a') (simp_all add: parsed_shape_def)
  have "trailing_nones [b, c, d]" using ps t by (simp add: parsed_shape_def)
  moreover have "\<forall>n. Some n \<in> set t \<longrightarrow> 0 \<le> n"
    using ps by (auto simp add: parsed_shape_def list_all_iff nonneg_slot_def split: option.splits)
  ultimately show "\<exists>a b c d. t = [Some a, b, c, d] \<and> trailing_nones [b, c, d]
        \<and> (\<forall>n. Some n \<in> set t \<longrightarrow> 0 \<le> n)"
    using t a by blast
next
  assume "\<exists>a b c d. t = [Some a, b, c, d] \<and> trailing_nones [b, c, d]
        \<and> (\<forall>n. Some n \<in> set t \<longrightarrow> 0 \<le> n)"
  then obtain a b c d where t: "t = [Some a, b, c, d]" and tn: "trailing_nones [b, c, d]"
    and nn: "\<forall>n. Some n \<in> set t \<longrightarrow> 0 \<le> n"
    by blast
  have "list_all nonneg_slot t"
    using nn by (auto simp add: list_all_iff nonneg_slot_def split: option.splits)
  then show "parsed_shape t" using t tn by (simp add: parsed_shape_def)
qed

lemma core_parsed_shape:
  assumes "version_core alts r \<noteq> []"
  shows "parsed_shape (process_loop (g0 # hd (version_core alts r)) 1 [])"
proof -
  obtain g1 g2 g3 g4 g5 g6 g7 g8 where
    h: "hd (version_core alts r) = [Some g1, Some g2, g3, Some g4, g5, Some g6, g7, Some g8]"
    and tn: "trailing_nones [g3, g5, g7]"
    using version_core_hd[OF assms] by blast
  have tn': "trailing_nones [map_option py_int g3, map_option py_int g5, map_option py_int g7]"
    using tn by (cases g3; cases g5; cases g7) simp_all
  show ?thesis
    unfolding h process_loop_groups parsed_shape_iff
    using tn' py_int_nonneg map_option_py_int_nonneg by auto
qed

lemma parser_shape:
  assumes "snd (process reg (tag_regexp_match s)) = Some t
         \<or> snd (process reg (branch_regexp_match s)) = Some t"
  shows "parsed_shape t"
  using assms
proof
  assume a: "snd (process reg (tag_regexp_match s)) = Some t"
  then obtain m where m: "tag_regexp_match s = Some m"
    by (cases "tag_regexp_match s") (simp_all add: process_def)
  obtain r where "version_core tag_alts r \<noteq> []" "m = Some (matched_text s) # hd (version_core tag_alts r)"
    using tag_match_core[OF m] by blast
  then show ?thesis using a core_parsed_shape[of tag_alts r "Some (matched_text s)"] unfolding m snd_process_Some
    by (simp del: process_loop.simps)
next
  assume a: "snd (process reg (branch_regexp_match s)) = Some t"
  then obtain m where m: "branch_regexp_match s = Some m"
    by (cases "branch_regexp_match s") (simp_all add: process_def)
  obtain r where "version_core branch_alts r \<noteq> []" "m = Some (matched_text s) # hd (version_core branch_alts r)"
    using branch_match_core[OF m] by blast
  then show ?thesis using a core_parsed_shape[of branch_alts r "Some (matched_text s)"] unfolding m snd_process_Some
    by (simp del: process_loop.simps)
qed

lemma parsed_shape_prefix_shaped: "parsed_shape t \<Longrightarrow> prefix_shaped t"
  unfolding parsed_shape_iff prefix_shaped_def
  by (elim exE conjE, rename_tac a b c d, case_tac b; case_tac c; case_tac d) auto

text \<open>
  C8. Every tuple that \<open>process\<close> builds from a match of the tag pattern or of the branch
  pattern is prefix-shaped: it has four slots, its major component is a defined integer
  that is not negative, and no \<^verbatim>\<open>None\<close> is followed by a defined component.
\<close>

theorem parsed_tuple_prefix_shaped:
  assumes "snd (process reg (tag_regexp_match s)) = Some t
         \<or> snd (process reg (branch_regexp_match s)) = Some t"
  shows "prefix_shaped t"
  using parser_shape[OF assms] by (rule parsed_shape_prefix_shaped)

theorem parsed_tuple_prefix_shaped_witness:
  "snd (process empty_registry (tag_regexp_match ''v1.2GA'')) = Some [Some 1, Some 2, None, None]
   \<and> prefix_shaped [Some 1, Some 2, None, None]
   \<and> snd (process empty_registry (branch_regexp_match ''origin/4.0.7-patch''))
        = Some [Some 4, Some 0, Some 7, None]
   \<and> prefix_shaped [Some 4, Some 0, Some 7, None]"
proof -
  have a: "snd (process empty_registry (tag_regexp_match ''v1.2GA''))
             = Some [Some 1, Some 2, None, None]"
    by code_simp
  have b: "snd (process empty_registry (branch_regexp_match ''origin/4.0.7-patch''))
             = Some [Some 4, Some 0, Some 7, None]"
    by code_simp
  show ?thesis
    using a b
      parsed_tuple_prefix_shaped [of empty_registry "''v1.2GA''" "[Some 1, Some 2, None, None]"]
      parsed_tuple_prefix_shaped
        [of empty_registry "''origin/4.0.7-patch''" "[Some 4, Some 0, Some 7, None]"]
    by blast
qed

section \<open>Displaying a parsed tuple and parsing it again\<close>

lemma digit_val_digit_char: "n < 10 \<Longrightarrow> digit_val (digit_char n) = int n"
proof -
  assume "n < 10"
  then have "n \<in> {0, 1, 2, 3, 4, 5, 6, 7, 8, 9}" by auto
  then show ?thesis by (auto simp add: digit_val_def digit_char_def)
qed

lemma py_int_snoc: "py_int (x @ [c]) = 10 * py_int x + digit_val c"
  by (simp add: py_int_def)

lemma py_int_str_nat: "py_int (str_nat n) = int n"
proof (induction n rule: str_nat.induct)
  case (1 n)
  show ?case
  proof (cases "n < 10")
    case True
    then show ?thesis
      by (subst str_nat.simps) (simp add: py_int_def digit_val_digit_char)
  next
    case False
    have "py_int (str_nat n) = 10 * py_int (str_nat (n div 10)) + digit_val (digit_char (n mod 10))"
      using False by (subst str_nat.simps) (simp add: py_int_snoc)
    also have "\<dots> = 10 * int (n div 10) + int (n mod 10)"
      using 1[OF False] by (simp add: digit_val_digit_char)
    also have "\<dots> = int n" by presburger
    finally show ?thesis .
  qed
qed

lemma str_nat_nonempty: "str_nat n \<noteq> []"
proof (cases "n < 10")
  case True
  then show ?thesis using str_nat.simps[of n] by simp
next
  case False
  then show ?thesis using str_nat.simps[of n] by simp
qed

lemma str_nat_digit_string: "digit_string (str_nat n)"
proof -
  have "\<forall>c \<in> set (str_nat n). is_digit c"
    using str_nat_digits[of n] unfolding is_digit_def by blast
  then show ?thesis using str_nat_nonempty[of n] by (simp add: digit_string_def list_all_iff)
qed

lemma str_digit_string: "0 \<le> n \<Longrightarrow> digit_string (str n)"
  by (simp add: str_def str_nat_digit_string)

lemma py_int_str: "0 \<le> n \<Longrightarrow> py_int (str n) = n"
  by (simp add: str_def py_int_str_nat)

lemma digits_plus_no_digit: "no_digit_start r \<Longrightarrow> digits_plus r = []"
  by (cases r) (simp_all add: no_digit_start_def)

lemma digits_plus_greedy:
  "digit_string d \<Longrightarrow> no_digit_start r \<Longrightarrow> \<exists>rest. digits_plus (d @ r) = (d, r) # rest"
proof (induction d)
  case Nil
  then show ?case by (simp add: digit_string_def)
next
  case (Cons c d)
  then have c: "is_digit c" and all: "list_all is_digit d" by (simp_all add: digit_string_def)
  show ?case
  proof (cases "d = []")
    case True
    then show ?thesis using c Cons.prems(2) by (simp add: digits_plus_no_digit)
  next
    case False
    then have "digit_string d" using all by (simp add: digit_string_def)
    then obtain rest where "digits_plus (d @ r) = (d, r) # rest"
      using Cons.IH Cons.prems(2) by blast
    then show ?thesis using c by simp
  qed
qed

lemma dot_digits_greedy:
  "digit_string d \<Longrightarrow> no_digit_start r \<Longrightarrow>
   \<exists>rest. dot_digits (CHR ''.'' # d @ r) = (CHR ''.'' # d, Some d, r) # rest"
  using digits_plus_greedy[of d r] by (auto simp add: dot_digits_def)

lemma no_digit_start_dotted: "no_digit_start sfx \<Longrightarrow> no_digit_start (dotted ds @ sfx)"
  by (cases ds) (simp_all add: dotted_def no_digit_start_def is_digit_def)

lemma dotted_Cons: "dotted (d # ds) = CHR ''.'' # d @ dotted ds"
  by (simp add: dotted_def)

lemma dotted_Nil: "dotted [] = []"
  by (simp add: dotted_def)

lemma bind_Cons_hd: "f x \<noteq> [] \<Longrightarrow> List.bind (x # xs) f \<noteq> [] \<and> hd (List.bind (x # xs) f) = hd (f x)"
  by (simp add: List.bind_def)

lemma opt_components_render:
  assumes "no_digit_start sfx" "dot_digits sfx = []" "opt_components 0 alts sfx \<noteq> []"
  shows "length ds \<le> k \<Longrightarrow> list_all digit_string ds \<Longrightarrow>
     opt_components k alts (dotted ds @ sfx) \<noteq> []
     \<and> inner_groups (hd (opt_components k alts (dotted ds @ sfx)))
         = map Some ds @ replicate (k - length ds) None"
proof (induction k arbitrary: ds)
  case 0
  then have "ds = []" by simp
  then show ?case using assms(3) opt_components_0_inner[OF assms(3)]
    by (simp add: dotted_Nil del: opt_components.simps)
next
  case (Suc k)
  show ?case
  proof (cases ds)
    case Nil
    have "opt_components k alts (dotted [] @ sfx) \<noteq> []
       \<and> inner_groups (hd (opt_components k alts (dotted [] @ sfx)))
           = map Some [] @ replicate (k - length ([]::string list)) None"
      by (rule Suc.IH) simp_all
    then have ih: "opt_components k alts sfx \<noteq> []"
      and ih2: "inner_groups (hd (opt_components k alts sfx)) = replicate k None"
      by (simp_all add: dotted_Nil del: opt_components.simps)
    have eq: "opt_components (Suc k) alts sfx =
        map (\<lambda>gs. Some '''' # None # gs) (opt_components k alts sfx)"
      unfolding opt_components_Suc assms(2) by (simp add: List.bind_def)
    have "hd (opt_components (Suc k) alts sfx) = Some '''' # None # hd (opt_components k alts sfx)"
      unfolding eq using ih by (simp add: hd_map del: opt_components.simps)
    then have "inner_groups (hd (opt_components (Suc k) alts sfx)) = None # replicate k None"
      using ih2 by (simp del: opt_components.simps)
    moreover have "opt_components (Suc k) alts sfx \<noteq> []"
      unfolding eq using ih by (simp del: opt_components.simps)
    ultimately show ?thesis unfolding Nil dotted_Nil
      by (simp del: opt_components.simps)
  next
    case (Cons d ds')
    then have len: "length ds' \<le> k" and dd: "digit_string d" and all: "list_all digit_string ds'"
      using Suc.prems by simp_all
    let ?r = "dotted ds' @ sfx"
    have "opt_components k alts ?r \<noteq> []
       \<and> inner_groups (hd (opt_components k alts ?r)) = map Some ds' @ replicate (k - length ds') None"
      by (rule Suc.IH[OF len all])
    then have ih: "opt_components k alts ?r \<noteq> []"
      and ih2: "inner_groups (hd (opt_components k alts ?r)) = map Some ds' @ replicate (k - length ds') None"
      by blast+
    have nd: "no_digit_start ?r" using assms(1) by (rule no_digit_start_dotted)
    obtain rest where dg: "dot_digits (CHR ''.'' # d @ ?r) = (CHR ''.'' # d, Some d, ?r) # rest"
      using dot_digits_greedy[OF dd nd] by blast
    let ?f = "\<lambda>(g, gi, r'). map (\<lambda>gs. Some g # gi # gs) (opt_components k alts r')"
    let ?x = "(CHR ''.'' # d, Some d, ?r)"
    have fx: "?f ?x = map (\<lambda>gs. Some (CHR ''.'' # d) # Some d # gs) (opt_components k alts ?r)"
      by (simp del: opt_components.simps)
    have fne: "?f ?x \<noteq> []" unfolding fx using ih by (simp del: opt_components.simps)
    have front: "List.bind (?x # rest) ?f \<noteq> [] \<and> hd (List.bind (?x # rest) ?f) = hd (?f ?x)"
      using fne by (rule bind_Cons_hd[where f = ?f and x = ?x and xs = rest])
    have s: "dotted ds @ sfx = CHR ''.'' # d @ ?r" by (simp add: Cons dotted_Cons)
    have ne: "opt_components (Suc k) alts (dotted ds @ sfx) \<noteq> []"
      unfolding s opt_components_Suc dg using front by blast
    have "hd (opt_components (Suc k) alts (dotted ds @ sfx)) = hd (?f ?x)"
      unfolding s opt_components_Suc dg using front by (metis (no_types, lifting) hd_append2)
    also have "\<dots> = Some (CHR ''.'' # d) # Some d # hd (opt_components k alts ?r)"
      unfolding fx using ih by (simp add: hd_map del: opt_components.simps)
    finally have "inner_groups (hd (opt_components (Suc k) alts (dotted ds @ sfx)))
        = Some d # map Some ds' @ replicate (k - length ds') None"
      using ih2 by (simp del: opt_components.simps)
    then show ?thesis using ne Cons by (simp del: opt_components.simps)
  qed
qed

lemma good_suffix_tag: "good_suffix tag_alts ''GA''"
  by (simp add: good_suffix_def no_digit_start_def is_digit_def dot_digits_def tag_alts_def
        literal_alts_def at_dollar_def List.bind_def)

lemma good_suffix_branch: "sfx \<in> set branch_alts \<Longrightarrow> good_suffix branch_alts sfx"
  by (auto simp add: good_suffix_def no_digit_start_def is_digit_def dot_digits_def branch_alts_def
        literal_alts_def at_dollar_def List.bind_def)

lemma join_dots_dotted: "join_dots (d # ds) = d @ dotted ds"
  by (induction ds arbitrary: d) (simp_all add: dotted_def)

lemma version_core_render:
  assumes "good_suffix alts sfx" "digit_string d" "list_all digit_string ds" "length ds \<le> 3"
  shows "version_core alts (d @ dotted ds @ sfx) \<noteq> []
     \<and> process_loop (g0 # hd (version_core alts (d @ dotted ds @ sfx))) 1 []
         = map (\<lambda>x. Some (py_int x)) (d # ds) @ replicate (3 - length ds) None"
proof -
  let ?r = "dotted ds @ sfx"
  have gs: "no_digit_start sfx" "dot_digits sfx = []" "opt_components 0 alts sfx \<noteq> []"
    using assms(1) by (simp_all add: good_suffix_def del: opt_components.simps)
  have "opt_components 3 alts ?r \<noteq> []
     \<and> inner_groups (hd (opt_components 3 alts ?r)) = map Some ds @ replicate (3 - length ds) None"
    by (rule opt_components_render[OF gs assms(4) assms(3)])
  then have ne3: "opt_components 3 alts ?r \<noteq> []"
    and inner: "inner_groups (hd (opt_components 3 alts ?r)) = map Some ds @ replicate (3 - length ds) None"
    by blast+
  have "hd (opt_components 3 alts ?r) \<in> set (opt_components 3 alts ?r)"
    using ne3 by (rule hd_in_set)
  then obtain g2 g3 g4 g5 g6 g7 g8
    where f: "hd (opt_components 3 alts ?r) = [Some g2, g3, Some g4, g5, Some g6, g7, Some g8]"
    using opt_components_3_form by blast
  have inner': "[g3, g5, g7] = map Some ds @ replicate (3 - length ds) None"
    using inner unfolding f by simp
  have nd: "no_digit_start ?r" using gs(1) by (rule no_digit_start_dotted)
  obtain rest where dp: "digits_plus (d @ ?r) = (d, ?r) # rest"
    using digits_plus_greedy[OF assms(2) nd] by blast
  let ?f = "\<lambda>(g1, r1). map (\<lambda>gs. Some g1 # gs) (opt_components 3 alts r1)"
  have fx: "?f (d, ?r) = map (\<lambda>gs. Some d # gs) (opt_components 3 alts ?r)" by simp
  have fne: "?f (d, ?r) \<noteq> []" unfolding fx using ne3 by simp
  have front: "List.bind ((d, ?r) # rest) ?f \<noteq> [] \<and> hd (List.bind ((d, ?r) # rest) ?f) = hd (?f (d, ?r))"
    using fne by (rule bind_Cons_hd[where f = ?f and x = "(d, ?r)" and xs = rest])
  have ne: "version_core alts (d @ ?r) \<noteq> []"
    unfolding version_core_eq dp using front by blast
  have "hd (version_core alts (d @ ?r)) = hd (?f (d, ?r))"
    unfolding version_core_eq dp using front by blast
  also have "\<dots> = Some d # hd (opt_components 3 alts ?r)"
    unfolding fx using ne3 by (simp add: hd_map)
  finally have h: "hd (version_core alts (d @ ?r)) = [Some d, Some g2, g3, Some g4, g5, Some g6, g7, Some g8]"
    unfolding f .
  have "process_loop (g0 # hd (version_core alts (d @ ?r))) 1 []
      = Some (py_int d) # map (map_option py_int) [g3, g5, g7]"
    unfolding h process_loop_groups by simp
  also have "\<dots> = map (\<lambda>x. Some (py_int x)) (d # ds) @ replicate (3 - length ds) None"
    unfolding inner' by simp
  finally show ?thesis using ne by blast
qed

lemma render_parse:
  assumes "good_suffix alts sfx" "ns \<noteq> []" "length ns \<le> 4" "\<forall>n \<in> set ns. 0 \<le> n"
  shows "version_core alts (join_dots (map str ns) @ sfx) \<noteq> []
     \<and> process_loop (g0 # hd (version_core alts (join_dots (map str ns) @ sfx))) 1 []
         = map Some ns @ replicate (4 - length ns) None"
proof -
  obtain n ns' where ns: "ns = n # ns'" using assms(2) by (cases ns) auto
  have d: "digit_string (str n)" using assms(4) ns by (simp add: str_digit_string)
  have ds: "list_all digit_string (map str ns')"
    using assms(4) ns by (simp add: list_all_iff str_digit_string)
  have len: "length (map str ns') \<le> 3" using assms(3) ns by simp
  have rt: "map (\<lambda>x. Some (py_int x)) (str n # map str ns') = map Some ns"
    using assms(4) ns by (simp add: py_int_str)
  have l: "3 - length (map str ns') = 4 - length ns" using ns by simp
  have j: "join_dots (map str ns) @ sfx = str n @ dotted (map str ns') @ sfx"
    unfolding ns by (simp add: join_dots_dotted)
  show ?thesis
    using version_core_render[OF assms(1) d ds len, of g0] unfolding j rt l by simp
qed

lemma rstrip_id: "s \<noteq> [] \<Longrightarrow> \<not> is_space (last s) \<Longrightarrow> rev (dropWhile is_space (rev s)) = s"
proof -
  assume a: "s \<noteq> []" "\<not> is_space (last s)"
  then have "rev s \<noteq> []" "\<not> is_space (hd (rev s))" by (simp_all add: hd_rev)
  then have "dropWhile is_space (rev s) = rev s" by (cases "rev s") simp_all
  then show ?thesis by simp
qed

lemma strip_tag_string:
  assumes "x \<noteq> []" "\<not> is_space (last x)"
  shows "strip (CHR ''v'' # x) = CHR ''v'' # x"
proof -
  have "dropWhile is_space (CHR ''v'' # x) = CHR ''v'' # x" by (simp add: is_space_def)
  moreover have "rev (dropWhile is_space (rev (CHR ''v'' # x))) = CHR ''v'' # x"
    by (rule rstrip_id) (use assms in simp_all)
  ultimately show ?thesis by (simp add: strip_def)
qed

lemma lstrip_slash: "dropWhile is_space (p @ CHR ''/'' # x) = dropWhile is_space p @ CHR ''/'' # x"
  by (induction p) (simp_all add: is_space_def)

lemma strip_branch_string:
  assumes "x \<noteq> []" "\<not> is_space (last x)"
  shows "strip (p @ CHR ''/'' # x) = dropWhile is_space p @ CHR ''/'' # x"
proof -
  have "rev (dropWhile is_space (rev (dropWhile is_space p @ CHR ''/'' # x)))
          = dropWhile is_space p @ CHR ''/'' # x"
    by (rule rstrip_id) (use assms in simp_all)
  then show ?thesis by (simp add: strip_def lstrip_slash)
qed

lemma tag_match_render:
  assumes "version_core tag_alts y \<noteq> []"
  shows "tag_regexp_match (CHR ''v'' # y)
           = Some (Some (matched_text (CHR ''v'' # y)) # hd (version_core tag_alts y))"
  using assms by (cases "version_core tag_alts y") (simp_all add: tag_regexp_match_def first_match_def)

lemma dot_star_prefix: "newline \<notin> set a \<Longrightarrow> \<exists>X. dot_star (a @ b) = dot_star b @ X"
  by (induction a) auto

lemma branch_match_render:
  assumes "version_core branch_alts y \<noteq> []" "CHR ''/'' \<notin> set y" "newline \<notin> set a"
  shows "branch_regexp_match (a @ CHR ''/'' # y)
           = Some (Some (matched_text (a @ CHR ''/'' # y)) # hd (version_core branch_alts y))"
proof -
  let ?f = "\<lambda>r. case r of [] \<Rightarrow> [] | c # r' \<Rightarrow>
         if c = CHR ''/'' then version_core branch_alts r' else []"
  obtain X where X: "dot_star (a @ CHR ''/'' # y) = dot_star (CHR ''/'' # y) @ X"
    using dot_star_prefix[OF assms(3)] by blast
  have ds: "dot_star (CHR ''/'' # y) = dot_star y @ [CHR ''/'' # y]"
    by (simp add: newline_def)
  have "\<forall>r \<in> set (dot_star y). ?f r = []"
    using assms(2) dot_star_subset by (fastforce split: list.splits)
  then have e: "List.bind (dot_star y) ?f = []"
    unfolding List.bind_def by simp
  have b: "List.bind (dot_star (a @ CHR ''/'' # y)) ?f
          = version_core branch_alts y @ List.bind X ?f"
    unfolding X ds bind_append e by (simp add: List.bind_def)
  obtain m ms where m: "version_core branch_alts y = m # ms"
    using assms(1) by (cases "version_core branch_alts y") auto
  show ?thesis
    unfolding branch_regexp_match_def b m by (simp add: first_match_def)
qed

lemma join_dots_chars:
  "\<forall>n \<in> set ns. 0 \<le> n \<Longrightarrow> \<forall>c \<in> set (join_dots (map str ns)). is_digit c \<or> c = CHR ''.''"
proof (induction ns)
  case Nil
  show ?case by simp
next
  case (Cons n ns)
  have "digit_string (str n)" using Cons.prems by (simp add: str_digit_string)
  then have "\<forall>c \<in> set (str n). is_digit c" by (simp add: digit_string_def list_all_iff)
  then show ?case using Cons by (auto simp add: join_dots_Cons)
qed

lemma join_dots_nonempty: "ns \<noteq> [] \<Longrightarrow> \<forall>n \<in> set ns. 0 \<le> n \<Longrightarrow> join_dots (map str ns) \<noteq> []"
  using str_digit_string by (cases ns) (auto simp add: join_dots_Cons digit_string_def)

lemma digit_or_dot_plain: "is_digit c \<or> c = CHR ''.'' \<Longrightarrow> plain_char c"
  by (auto simp add: plain_char_def is_digit_def is_space_def)

lemma branch_alts_plain: "sfx \<in> set branch_alts \<Longrightarrow> c \<in> set sfx \<Longrightarrow> plain_char c"
  by (auto simp add: branch_alts_def plain_char_def is_space_def)

lemma last_plain: "x \<noteq> [] \<Longrightarrow> \<forall>c \<in> set x. plain_char c \<Longrightarrow> \<not> is_space (last x)"
  using last_in_set by (auto simp add: plain_char_def)

lemma reparse_tag:
  assumes "ns \<noteq> []" "length ns \<le> 4" "\<forall>n \<in> set ns. 0 \<le> n"
  shows "snd (process reg (tag_regexp_match (strip (''v'' @ join_dots (map str ns) @ ''GA''))))
           = Some (map Some ns @ replicate (4 - length ns) None)"
proof -
  let ?y = "join_dots (map str ns) @ ''GA''"
  have s: "strip (''v'' @ ?y) = CHR ''v'' # ?y"
    using strip_tag_string[of ?y] by (simp add: is_space_def)
  have r: "version_core tag_alts ?y \<noteq> []
     \<and> process_loop (Some (matched_text (CHR ''v'' # ?y)) # hd (version_core tag_alts ?y)) 1 []
         = map Some ns @ replicate (4 - length ns) None"
    by (rule render_parse[OF good_suffix_tag assms])
  then have m: "tag_regexp_match (CHR ''v'' # ?y)
       = Some (Some (matched_text (CHR ''v'' # ?y)) # hd (version_core tag_alts ?y))"
    using tag_match_render by blast
  show ?thesis unfolding s m snd_process_Some using r by blast
qed

lemma reparse_branch:
  assumes "ns \<noteq> []" "length ns \<le> 4" "\<forall>n \<in> set ns. 0 \<le> n"
    and "sfx \<in> set branch_alts" "newline \<notin> set p"
  shows "snd (process reg (branch_regexp_match (strip (p @ ''/'' @ join_dots (map str ns) @ sfx))))
           = Some (map Some ns @ replicate (4 - length ns) None)"
proof -
  let ?y = "join_dots (map str ns) @ sfx"
  let ?a = "dropWhile is_space p"
  have ne: "?y \<noteq> []" using join_dots_nonempty[OF assms(1) assms(3)] by simp
  have pl: "\<forall>c \<in> set ?y. plain_char c"
    using join_dots_chars[OF assms(3)] digit_or_dot_plain branch_alts_plain[OF assms(4)] by auto
  have s: "strip (p @ ''/'' @ ?y) = ?a @ CHR ''/'' # ?y"
    using strip_branch_string[OF ne last_plain[OF ne pl], of p] by simp
  have nl: "newline \<notin> set ?a" using assms(5) set_dropWhileD by fastforce
  have sl: "CHR ''/'' \<notin> set ?y" using pl by (auto simp add: plain_char_def)
  have r: "version_core branch_alts ?y \<noteq> []
     \<and> process_loop (Some (matched_text (?a @ CHR ''/'' # ?y)) # hd (version_core branch_alts ?y)) 1 []
         = map Some ns @ replicate (4 - length ns) None"
    by (rule render_parse[OF good_suffix_branch[OF assms(4)] assms(1) assms(2) assms(3)])
  then have m: "branch_regexp_match (?a @ CHR ''/'' # ?y)
       = Some (Some (matched_text (?a @ CHR ''/'' # ?y)) # hd (version_core branch_alts ?y))"
    using branch_match_render[OF _ sl nl] by blast
  show ?thesis unfolding s m snd_process_Some using r by blast
qed

lemma strip_zeros_prefix: "prefix (strip_zeros ns) ns"
proof -
  let ?P = "\<lambda>n::int. n = 0"
  have "rev (takeWhile ?P (rev ns) @ dropWhile ?P (rev ns)) = ns"
    by (simp only: takeWhile_dropWhile_id rev_rev_ident)
  then have "rev (dropWhile ?P (rev ns)) @ rev (takeWhile ?P (rev ns)) = ns"
    by (simp only: rev_append)
  then have "ns = strip_zeros ns @ rev (takeWhile ?P (rev ns))"
    by (simp only: strip_zeros_def)
  then show ?thesis by (rule prefixI)
qed

lemma defined_prefix_Some: "map Some (defined_prefix t) = takeWhile (\<lambda>x. x \<noteq> None) t"
  unfolding defined_prefix_def by (induction t) auto

lemma shown_prefix: "prefix (map Some (shown t)) t"
proof -
  have "prefix (map Some (shown t)) (map Some (defined_prefix t))"
    unfolding shown_def using strip_zeros_prefix by (rule map_mono_prefix)
  also have "prefix (map Some (defined_prefix t)) t"
    unfolding defined_prefix_Some by (metis prefixI takeWhile_dropWhile_id)
  finally show ?thesis .
qed

lemma shown_length: "length (shown t) \<le> length t"
  using shown_prefix[of t] prefix_length_le by fastforce

lemma shown_nth: "i < length (shown t) \<Longrightarrow> t ! i = Some (shown t ! i)"
proof -
  assume i: "i < length (shown t)"
  obtain zs where "t = map Some (shown t) @ zs" using shown_prefix[of t] by (auto simp add: prefix_def)
  then have "t ! i = (map Some (shown t) @ zs) ! i" by simp
  also have "\<dots> = Some (shown t ! i)" using i by (simp add: nth_append)
  finally show ?thesis .
qed

lemma shown_member: "n \<in> set (shown t) \<Longrightarrow> Some n \<in> set t"
proof -
  assume "n \<in> set (shown t)"
  then have "Some n \<in> set (map Some (shown t))" by simp
  then show ?thesis using shown_prefix[of t] set_mono_prefix by blast
qed

lemma parsed_shape_shown_nonempty:
  assumes "parsed_shape t" "Some n \<in> set t" "n \<noteq> 0"
  shows "shown t \<noteq> []"
proof -
  obtain a b c d where t: "t = [Some a, b, c, d]" and tn: "trailing_nones [b, c, d]"
    using assms(1) by (auto simp add: parsed_shape_iff)
  show ?thesis
    using tn assms(2,3) unfolding t
    by (cases b; cases c; cases d) (auto simp add: shown_simps)
qed

lemma parsed_shape_length: "parsed_shape t \<Longrightarrow> length t = 4"
  by (auto simp add: parsed_shape_iff)

lemma parsed_shape_nonneg: "parsed_shape t \<Longrightarrow> Some n \<in> set t \<Longrightarrow> 0 \<le> n"
  by (auto simp add: parsed_shape_iff)

text \<open>
  C6, as amended. Let \<open>t\<close> be a tuple that \<open>process\<close> builds from a tag or a branch name, with
  some component that is not zero. Parsing \<open>display t\<close> again, with \<open>v\<close> before it and \<open>GA\<close>
  after it for the tag pattern, or with a path prefix free of newlines, a slash and any of
  the branch suffixes for the branch pattern, gives \<open>t\<close> with its trailing zero components
  replaced by \<^verbatim>\<open>None\<close>: the result agrees with \<open>t\<close> at every position up to the last
  component of \<open>t\<close> that is not zero.
\<close>

theorem display_reparse:
  assumes "snd (process reg (tag_regexp_match (strip s))) = Some t
         \<or> snd (process reg (branch_regexp_match (strip s))) = Some t"
    and "Some n \<in> set t" "n \<noteq> 0"
    and "sfx \<in> set branch_alts" "newline \<notin> set p"
  shows "snd (process reg' (tag_regexp_match (strip (''v'' @ display t @ ''GA''))))
           = Some (drop_trailing_zeros t)
     \<and> snd (process reg' (branch_regexp_match (strip (p @ ''/'' @ display t @ sfx))))
           = Some (drop_trailing_zeros t)
     \<and> shown t \<noteq> []
     \<and> (\<forall>i < length (shown t). drop_trailing_zeros t ! i = t ! i)"
proof -
  have ps: "parsed_shape t" using assms(1) by (rule parser_shape)
  have ne: "shown t \<noteq> []" using ps assms(2,3) by (rule parsed_shape_shown_nonempty)
  have len: "length (shown t) \<le> 4" using shown_length[of t] parsed_shape_length[OF ps] by simp
  have nn: "\<forall>n \<in> set (shown t). 0 \<le> n" using shown_member parsed_shape_nonneg[OF ps] by blast
  have dtz: "drop_trailing_zeros t = map Some (shown t) @ replicate (4 - length (shown t)) None"
    by (simp add: drop_trailing_zeros_def parsed_shape_length[OF ps])
  have agree: "\<forall>i < length (shown t). drop_trailing_zeros t ! i = t ! i"
    by (simp add: drop_trailing_zeros_def nth_append shown_nth)
  show ?thesis
    unfolding display_eq dtz[symmetric]
    using reparse_tag[OF ne len nn, of reg'] reparse_branch[OF ne len nn assms(4,5), of reg']
      ne agree
    unfolding dtz by blast
qed

theorem display_reparse_witness:
  "snd (process empty_registry (tag_regexp_match (strip ''v1.2.0GA'')))
       = Some [Some 1, Some 2, Some 0, None]
   \<and> snd (process empty_registry
            (tag_regexp_match (strip (''v'' @ display [Some 1, Some 2, Some 0, None] @ ''GA''))))
       = Some [Some 1, Some 2, None, None]
   \<and> snd (process empty_registry
            (branch_regexp_match
               (strip (''origin'' @ ''/'' @ display [Some 1, Some 2, Some 0, None] @ ''.next''))))
       = Some [Some 1, Some 2, None, None]"
proof -
  have a: "snd (process empty_registry (tag_regexp_match (strip ''v1.2.0GA'')))
            = Some [Some 1, Some 2, Some 0, None]"
    by code_simp
  have b: "drop_trailing_zeros [Some 1, Some 2, Some 0, None] = [Some 1, Some 2, None, None]"
    by (simp add: drop_trailing_zeros_def shown_simps)
  show ?thesis
    using a display_reparse
              [of empty_registry "''v1.2.0GA''" "[Some 1, Some 2, Some 0, None]" 2
                  "''.next''" "''origin''" empty_registry]
    unfolding b by (simp add: branch_alts_def newline_def)
qed

text \<open>
  C6 as stated fails. The tag \<open>v1.0GA\<close> parses to \<open>(1, 0, None, None)\<close>, which is displayed as
  \<open>1\<close>; \<open>v1GA\<close> parses to \<open>(1, None, None, None)\<close>, which differs from the first tuple at
  position 1, where that one is defined. And the tag \<open>v0GA\<close> parses to
  \<open>(0, None, None, None)\<close>, which is displayed as the empty string; \<open>vGA\<close> does not parse.
\<close>

theorem display_reparse_counterexample:
  "snd (process empty_registry (tag_regexp_match (strip ''v1.0GA'')))
       = Some [Some 1, Some 0, None, None]
   \<and> snd (process empty_registry
            (tag_regexp_match (strip (''v'' @ display [Some 1, Some 0, None, None] @ ''GA''))))
       = Some [Some 1, None, None, None]
   \<and> [Some 1, Some 0, None, None] ! 1 \<noteq> (None :: int option)
   \<and> [Some 1, None, None, None] ! 1 \<noteq> ([Some 1, Some 0, None, None] ! 1 :: int option)
   \<and> snd (process empty_registry (tag_regexp_match (strip ''v0GA'')))
       = Some [Some 0, None, None, None]
   \<and> snd (process empty_registry
            (tag_regexp_match (strip (''v'' @ display [Some 0, None, None, None] @ ''GA''))))
       = None"
  by code_simp

end
